theory Spec2Isabelle
  imports Main "HOL-Library.Word"
begin

section \<open>Data model\<close>

text \<open>
  A JavaScript string is a sequence of UTF-16 code units and \<^verbatim>\<open>text.length\<close> counts
  code units, so a unit text is a list of 16-bit words and \<^verbatim>\<open>text.length\<close> is
  \<^const>\<open>length\<close>. Paths, extensions and messages are never measured and stay
  \<^typ>\<open>string\<close>.
\<close>

type_synonym jstr = "16 word list"

definition BYTES_LIMIT :: nat where
  "BYTES_LIMIT = 10000"

definition RETRY_LIMIT :: nat where
  "RETRY_LIMIT = 3"

text \<open>
  Errors carry their message: the module's own \<^verbatim>\<open>RequestError\<close>, and any other
  \<^verbatim>\<open>Error\<close> a collaborator rejects with.
\<close>

datatype error = RequestError string | Error string

text \<open>
  The state shared by the requester and the splitter of one language run.
  \<^item> \<open>cache\<close> is the \<^verbatim>\<open>Map<string, Defer>\<close>; a \<^verbatim>\<open>Defer\<close> object is its address in
    \<open>defers\<close>.
  \<^item> \<open>defers\<close> is the store of \<^verbatim>\<open>Defer\<close> objects: \<open>None\<close> is a pending promise,
    \<open>Some v\<close> one fulfilled with \<open>v\<close>.
  \<^item> \<open>stat_bytes\<close>, \<open>stat_chunks\<close> are \<^verbatim>\<open>request.stat\<close>.
  \<^item> \<open>requested\<close> records the argument of every call of \<^verbatim>\<open>request\<close>, \<open>calls\<close> the
    texts of every \<^verbatim>\<open>client.translate\<close> call and \<open>warnings\<close> the paths passed to
    \<^verbatim>\<open>logger.warn\<close>; the three are observations added to the state, the code keeps
    no such lists.
\<close>

record world =
  cache :: "jstr \<rightharpoonup> nat"
  defers :: "jstr list option list"
  stat_bytes :: nat
  stat_chunks :: nat
  requested :: "jstr list list"
  calls :: "jstr list list"
  warnings :: "string list"

definition emptyWorld :: world where
  "emptyWorld = \<lparr>cache = Map.empty, defers = [], stat_bytes = 0, stat_chunks = 0,
     requested = [], calls = [], warnings = []\<rparr>"

text \<open>
  Modelled from the spec: the class \<^verbatim>\<open>Defer\<close> is imported from \<^verbatim>\<open>./utils\<close>, which is
  not among the sources. The spec describes it as a future whose value is set exactly
  once: \<open>newDefer\<close> allocates a pending one, \<open>deferResolve\<close> fulfils a pending one and
  leaves a fulfilled one as it is.
\<close>

definition newDefer :: "world \<Rightarrow> nat \<times> world" where
  "newDefer w = (length (defers w), w\<lparr>defers := defers w @ [None]\<rparr>)"

definition deferResolve :: "nat \<Rightarrow> jstr list \<Rightarrow> world \<Rightarrow> world" where
  "deferResolve d v w =
     (if d < length (defers w) then
        (case defers w ! d of
           None \<Rightarrow> w\<lparr>defers := (defers w)[d := Some v]\<rparr>
         | Some _ \<Rightarrow> w)
      else w)"

text \<open>
  Modelled from the spec: the byte-length of a text. The helper \<^verbatim>\<open>bytes\<close> is imported
  from \<^verbatim>\<open>./utils\<close>, which is not among the sources; the spec says it sums the
  byte-length of each text. The bytes of a string are those of its UTF-8 encoding:
  one to three bytes for a code unit, four for a surrogate pair.
\<close>

definition unitBytes :: "16 word \<Rightarrow> nat" where
  "unitBytes c = (if c < 0x80 then 1 else if c < 0x800 then 2 else 3)"

definition isHigh :: "16 word \<Rightarrow> bool" where
  "isHigh c = (0xD800 \<le> c \<and> c < 0xDC00)"

definition isLow :: "16 word \<Rightarrow> bool" where
  "isLow c = (0xDC00 \<le> c \<and> c < 0xE000)"

fun byteLength :: "jstr \<Rightarrow> nat" where
  "byteLength [] = 0"
| "byteLength [c] = unitBytes c"
| "byteLength (c # d # cs) =
     (if isHigh c \<and> isLow d then 4 + byteLength cs
      else unitBytes c + byteLength (d # cs))"

definition bytes :: "jstr list \<Rightarrow> nat" where
  "bytes texts = sum_list (map byteLength texts)"

section \<open>The requester\<close>

text \<open>
  The closure \<^verbatim>\<open>resolve(text, index, texts)\<close> of \<^verbatim>\<open>requester\<close>: it looks up
  \<^verbatim>\<open>texts[index]\<close> in the cache, resolves the Defer found there with \<^verbatim>\<open>[text]\<close> and
  returns \<^verbatim>\<open>text\<close>. An index out of range reads \<^verbatim>\<open>undefined\<close>, which is no key of the
  map.
\<close>

definition resolve :: "jstr \<Rightarrow> nat \<Rightarrow> jstr list \<Rightarrow> world \<Rightarrow> jstr \<times> world" where
  "resolve text index texts w =
     (if index < length texts then
        (case cache w (texts ! index) of
           Some defer \<Rightarrow> (text, deferResolve defer [text] w)
         | None \<Rightarrow> (text, w))
      else (text, w))"

text \<open>\<^verbatim>\<open>xs.map((x, index) => resolve(x, index, texts))\<close>, from position \<open>i\<close> on.\<close>

fun mapResolve :: "jstr list \<Rightarrow> nat \<Rightarrow> jstr list \<Rightarrow> world \<Rightarrow> jstr list \<times> world" where
  "mapResolve [] i texts w = ([], w)"
| "mapResolve (x # xs) i texts w =
     (let (y, w1) = resolve x i texts w;
          (ys, w2) = mapResolve xs (Suc i) texts w1
      in (y # ys, w2))"

text \<open>
  \<^verbatim>\<open>request(texts)\<close> has two parts: the accounting done when it is called, and the
  action it returns. The backend is an oracle: its answer to the \<open>k\<close>-th call of
  \<^verbatim>\<open>client.translate\<close> with the given texts is a failure message or the translations.
  The language codes, the folder and the format are passed through to the backend and
  decide nothing here.
\<close>

type_synonym backend = "nat \<Rightarrow> jstr list \<Rightarrow> string + jstr list"

definition request :: "jstr list \<Rightarrow> world \<Rightarrow> world" where
  "request texts w =
     w\<lparr>stat_bytes := stat_bytes w + bytes texts,
       stat_chunks := stat_chunks w + 1,
       requested := requested w @ [texts]\<rparr>"

definition action :: "bool \<Rightarrow> backend \<Rightarrow> jstr list \<Rightarrow> world \<Rightarrow> (error + jstr list) \<times> world" where
  "action dryRun backend texts w =
     (if dryRun then
        (let (r, w1) = mapResolve texts 0 texts w in (Inr r, w1))
      else
        (let w1 = w\<lparr>calls := calls w @ [texts]\<rparr> in
         case backend (length (calls w)) texts of
           Inr translations \<Rightarrow>
             (let (r, w2) = mapResolve translations 0 texts w1 in (Inr r, w2))
         | Inl message \<Rightarrow> (Inl (RequestError message), w1)))"

text \<open>
  What the spec calls \<open>Cache.resolve(text, value)\<close>: the entry under the key, if there is
  one, is resolved with the value. The code has no such function; \<open>resolve\<close> above
  does it for the key \<^verbatim>\<open>texts[index]\<close> and the value \<^verbatim>\<open>[text]\<close>.
\<close>

definition cacheResolve :: "jstr \<Rightarrow> jstr list \<Rightarrow> world \<Rightarrow> world" where
  "cacheResolve key v w =
     (case cache w key of Some defer \<Rightarrow> deferResolve defer v w | None \<Rightarrow> w)"

section \<open>The backoff retrier\<close>

text \<open>
  \<^verbatim>\<open>retry\<close> is the function of the npm package \<^verbatim>\<open>async\<close> that the module imports; it
  is not code of this repository. The model follows the package's documented contract:
  \<^verbatim>\<open>times\<close> is the number of attempts to make before giving up, \<^verbatim>\<open>interval\<close> is
  called with the retry count, which starts at one, and gives the delay in milliseconds
  before that retry, and the returned promise settles with the outcome of the last
  attempt. \<open>ntimes\<close> is the option \<^verbatim>\<open>times\<close> and \<open>attempt\<close> the counter of the
  package's \<^verbatim>\<open>retryAttempt\<close>, which starts at one. The trace records each invocation
  of the task and each delay set.
\<close>

datatype event = Invoke | Delay nat

function retryAttempt ::
  "nat \<Rightarrow> (nat \<Rightarrow> nat) \<Rightarrow> ('s \<Rightarrow> (error + 'a) \<times> 's) \<Rightarrow> nat \<Rightarrow> 's
     \<Rightarrow> ((error + 'a) \<times> event list) \<times> 's" where
  "retryAttempt ntimes intervalFunc task attempt s =
     (let (r, s1) = task s in
      if isl r \<and> attempt < ntimes then
        (let ((r2, evs), s2) = retryAttempt ntimes intervalFunc task (Suc attempt) s1
         in ((r2, Invoke # Delay (intervalFunc attempt) # evs), s2))
      else ((r, [Invoke]), s1))"
  by pat_completeness auto
termination
  by (relation "measure (\<lambda>(ntimes, intervalFunc, task, attempt, s). ntimes - attempt)") auto

declare retryAttempt.simps [simp del]

definition retry ::
  "nat \<Rightarrow> (nat \<Rightarrow> nat) \<Rightarrow> ('s \<Rightarrow> (error + 'a) \<times> 's) \<Rightarrow> 's
     \<Rightarrow> ((error + 'a) \<times> event list) \<times> 's" where
  "retry ntimes interval task s = retryAttempt ntimes interval task 1 s"

definition backoff ::
  "('s \<Rightarrow> (error + 'a) \<times> 's) \<Rightarrow> 's \<Rightarrow> ((error + 'a) \<times> event list) \<times> 's" where
  "backoff act s = retry RETRY_LIMIT (\<lambda>count. 2 ^ count * 1000) act s"

section \<open>The splitter\<close>

text \<open>
  The promises the splitter returns: the promise of a Defer of the cache, an already
  resolved promise, or the promise of \<^verbatim>\<open>backoff(request(buffer))\<close> for a batch. The
  splitter itself reads the cache only for the presence of a key and never reads a
  Defer; the actions only resolve Defers. So the model lets the splitter form its
  batches first and runs the actions afterwards (\<open>settle\<close> below).
\<close>

datatype promise = DeferPromise nat | Resolved "jstr list" | Backoff "jstr list"

record locals =
  promises :: "promise list"
  buffer :: "jstr list"
  bufferSize :: nat

definition release :: "locals \<Rightarrow> world \<Rightarrow> locals \<times> world" where
  "release l w =
     (l\<lparr>promises := promises l @ [Backoff (buffer l)], buffer := [], bufferSize := 0\<rparr>,
      request (buffer l) w)"

text \<open>The body of the \<^verbatim>\<open>for\<close> loop, for one unit.\<close>

definition step :: "string \<Rightarrow> jstr \<Rightarrow> locals \<Rightarrow> world \<Rightarrow> locals \<times> world" where
  "step path text l w =
     (case cache w text of
        Some defer \<Rightarrow> (l\<lparr>promises := promises l @ [DeferPromise defer]\<rparr>, w)
      | None \<Rightarrow>
          if length text \<ge> BYTES_LIMIT then
            (l\<lparr>promises := promises l @ [Resolved [text]]\<rparr>,
             w\<lparr>warnings := warnings w @ [path]\<rparr>)
          else
            (let (l1, w1) =
                   (if bufferSize l + length text > BYTES_LIMIT then release l w else (l, w));
                 l2 = l1\<lparr>buffer := buffer l1 @ [text],
                         bufferSize := bufferSize l1 + length text\<rparr>;
                 (defer, w2) = newDefer w1
             in (l2, w2\<lparr>cache := (cache w2)(text \<mapsto> defer)\<rparr>)))"

fun loop :: "string \<Rightarrow> jstr list \<Rightarrow> locals \<Rightarrow> world \<Rightarrow> locals \<times> world" where
  "loop path [] l w = (l, w)"
| "loop path (text # texts) l w = (let (l1, w1) = step path text l w in loop path texts l1 w1)"

definition splitter :: "string \<Rightarrow> jstr list \<Rightarrow> world \<Rightarrow> promise list \<times> world" where
  "splitter path texts w =
     (let (l, w1) = loop path texts \<lparr>promises = [], buffer = [], bufferSize = 0\<rparr> w in
      if bufferSize l \<noteq> 0 then
        (promises l @ [Backoff (buffer l)], request (buffer l) w1)
      else (promises l, w1))"

section \<open>Settling the promises\<close>

datatype settled = Pending | Fulfilled "jstr list" | Rejected error

text \<open>
  The batches of a promise list run one after the other, each through all its attempts.
  What the real, interleaved run does differently is the order of the backend calls;
  the cache keys an action reads were all set before the batch was formed.
\<close>

fun runBatches :: "bool \<Rightarrow> backend \<Rightarrow> promise list \<Rightarrow> world \<Rightarrow> settled list \<times> world" where
  "runBatches dryRun backend [] w = ([], w)"
| "runBatches dryRun backend (Backoff texts # ps) w =
     (let ((r, evs), w1) = backoff (action dryRun backend texts) w;
          (rs, w2) = runBatches dryRun backend ps w1
      in ((case r of Inl e \<Rightarrow> Rejected e | Inr v \<Rightarrow> Fulfilled v) # rs, w2))"
| "runBatches dryRun backend (p # ps) w =
     (let (rs, w2) = runBatches dryRun backend ps w in (Pending # rs, w2))"

fun await :: "world \<Rightarrow> promise \<Rightarrow> settled \<Rightarrow> settled" where
  "await w (DeferPromise d) s =
     (if d < length (defers w) then
        (case defers w ! d of None \<Rightarrow> Pending | Some v \<Rightarrow> Fulfilled v)
      else Pending)"
| "await w (Resolved v) s = Fulfilled v"
| "await w (Backoff texts) s = s"

definition settle :: "bool \<Rightarrow> backend \<Rightarrow> promise list \<Rightarrow> world \<Rightarrow> settled list \<times> world" where
  "settle dryRun backend ps w =
     (let (rs, w1) = runBatches dryRun backend ps w
      in (map (\<lambda>(p, s). await w1 p s) (zip ps rs), w1))"

text \<open>
  \<^verbatim>\<open>flat(await Promise.all(...))\<close>: a rejected promise rejects the whole, else a promise
  that never settles leaves it pending, else the values are concatenated in list order.
\<close>

datatype 'a outcome = Done 'a | Failed error | Hangs

fun firstRejected :: "settled list \<Rightarrow> error option" where
  "firstRejected [] = None"
| "firstRejected (Rejected e # ss) = Some e"
| "firstRejected (s # ss) = firstRejected ss"

fun allValues :: "settled list \<Rightarrow> jstr list list option" where
  "allValues [] = Some []"
| "allValues (Fulfilled v # ss) = (case allValues ss of None \<Rightarrow> None | Some vs \<Rightarrow> Some (v # vs))"
| "allValues (s # ss) = None"

definition flatAll :: "settled list \<Rightarrow> jstr list outcome" where
  "flatAll ss =
     (case firstRejected ss of
        Some e \<Rightarrow> Failed e
      | None \<Rightarrow> (case allValues ss of None \<Rightarrow> Hangs | Some vs \<Rightarrow> Done (concat vs)))"

section \<open>The translator\<close>

text \<open>
  The collaborators of the translator, which the module imports: \<^verbatim>\<open>extname\<close>,
  \<^verbatim>\<open>resolve\<close> and \<^verbatim>\<open>dirname\<close> of the path library, \<^verbatim>\<open>mkdir\<close>, and \<^verbatim>\<open>loadFile\<close>,
  \<^verbatim>\<open>dumpFile\<close>, \<^verbatim>\<open>extract\<close> and \<^verbatim>\<open>compose\<close> of \<^verbatim>\<open>./utils\<close>. None is among the
  sources, so they are parameters (\<open>resolvePath\<close> stands for the path library's
  \<^verbatim>\<open>resolve\<close>, \<open>extractUnits\<close> for \<^verbatim>\<open>extract\<close>); those that do input or output, parse
  or build a document may reject with an error. A content is a string or absent
  (\<open>None\<close>), and \<open>'k\<close> is the type of skeletons.
\<close>

type_synonym content = "jstr option"

record 'k env =
  extname :: "string \<Rightarrow> string"
  resolvePath :: "string \<Rightarrow> string \<Rightarrow> string"
  dirname :: "string \<Rightarrow> string"
  loadFile :: "string \<Rightarrow> error + content"
  mkdir :: "string \<Rightarrow> error option"
  dumpFile :: "string \<Rightarrow> content \<Rightarrow> error option"
  extractUnits :: "jstr \<Rightarrow> error + jstr list \<times> 'k"
  compose :: "'k \<Rightarrow> jstr list \<Rightarrow> error + jstr"

text \<open>The calls of the collaborators and of the splitter that a translator run makes.\<close>

datatype io =
  LoadFile string
  | MakeDir string
  | DumpFile string content
  | ExtractUnits jstr
  | SplitUnits string "jstr list"
  | ComposeParts "jstr list"

text \<open>\<^verbatim>\<open>!content\<close>: the content is absent or the empty string.\<close>

definition falsy :: "content \<Rightarrow> bool" where
  "falsy content = (case content of None \<Rightarrow> True | Some s \<Rightarrow> s = [])"

text \<open>\<^verbatim>\<open>await dumpFile(outputPath, content); return\<close>, after the calls \<open>done\<close>.\<close>

definition dump :: "'k env \<Rightarrow> string \<Rightarrow> content \<Rightarrow> io list \<Rightarrow> unit outcome \<times> io list" where
  "dump env outputPath content done =
     ((case dumpFile env outputPath content of Some e \<Rightarrow> Failed e | None \<Rightarrow> Done ()),
      done @ [DumpFile outputPath content])"

text \<open>
  The function \<^verbatim>\<open>translator\<close> returns, applied to a path. The languages are passed to
  \<^verbatim>\<open>extract\<close> and decide nothing here. The promises of the splitter are settled before
  they are awaited, as if this file's batches ran alone.
\<close>

definition translator ::
  "'k env \<Rightarrow> string \<Rightarrow> string \<Rightarrow> bool \<Rightarrow> backend \<Rightarrow> string \<Rightarrow> world
     \<Rightarrow> (unit outcome \<times> io list) \<times> world" where
  "translator env input output dryRun backend path w =
     (if extname env path \<notin> set [''.yaml'', ''.json'', ''.md''] then ((Done (), []), w)
      else
        (let inputPath = resolvePath env input path;
             outputPath = resolvePath env output path
         in case loadFile env inputPath of
              Inl e \<Rightarrow> ((Failed e, [LoadFile inputPath]), w)
            | Inr content \<Rightarrow>
                (let done1 = [LoadFile inputPath, MakeDir (dirname env outputPath)] in
                 case mkdir env (dirname env outputPath) of
                   Some e \<Rightarrow> ((Failed e, done1), w)
                 | None \<Rightarrow>
                     (case content of
                        None \<Rightarrow> (dump env outputPath content done1, w)
                      | Some s \<Rightarrow>
                          if s = [] then (dump env outputPath content done1, w)
                          else
                            (let done2 = done1 @ [ExtractUnits s] in
                             case extractUnits env s of
                               Inl e \<Rightarrow> ((Failed e, done2), w)
                             | Inr (units, skeleton) \<Rightarrow>
                                 if units = [] then (dump env outputPath content done2, w)
                                 else
                                   (let (ps, w1) = splitter path units w;
                                        (ss, w2) = settle dryRun backend ps w1;
                                        done3 = done2 @ [SplitUnits path units]
                                    in case flatAll ss of
                                         Failed e \<Rightarrow> ((Failed e, done3), w2)
                                       | Hangs \<Rightarrow> ((Hangs, done3), w2)
                                       | Done parts \<Rightarrow>
                                           (case compose env skeleton parts of
                                              Inl e \<Rightarrow>
                                                ((Failed e, done3 @ [ComposeParts parts]), w2)
                                            | Inr composed \<Rightarrow>
                                                (dump env outputPath (Some composed)
                                                   (done3 @ [ComposeParts parts]), w2))))))))"

section \<open>A language run\<close>

text \<open>
  The handler makes a new cache and requester for each target language and then
  translates the files, up to twenty at a time. The splitter has no \<^verbatim>\<open>await\<close>, so each of
  its invocations runs as a whole; between two of them any attempts of batch actions may
  run. Seen from the shared state a language run is a sequence of such moves, starting
  from \<open>emptyWorld\<close>.
\<close>

datatype move = Split string "jstr list" | Act "jstr list"

fun run :: "bool \<Rightarrow> backend \<Rightarrow> move list \<Rightarrow> world \<Rightarrow> world" where
  "run dryRun backend [] w = w"
| "run dryRun backend (Split path texts # ms) w =
     run dryRun backend ms (snd (splitter path texts w))"
| "run dryRun backend (Act texts # ms) w =
     run dryRun backend ms (snd (action dryRun backend texts w))"

section \<open>Predicates used in the statements\<close>

text \<open>
  The bound a batch obeys, in the measure the splitter uses (\<^verbatim>\<open>text.length\<close>, UTF-16
  code units).
\<close>

definition batchOk :: "jstr list \<Rightarrow> bool" where
  "batchOk b =
     (sum_list (map length b) \<le> BYTES_LIMIT \<and> list_all (\<lambda>t. length t < BYTES_LIMIT) b)"

definition bufferOk :: "locals \<Rightarrow> bool" where
  "bufferOk l = (bufferSize l = sum_list (map length (buffer l)) \<and> batchOk (buffer l))"

text \<open>The batches passed to the requester between two states.\<close>

definition formed :: "world \<Rightarrow> world \<Rightarrow> jstr list list" where
  "formed w w' = drop (length (requested w)) (requested w')"

text \<open>
  Two invariants of the loop: the buffer and the batches formed since the state \<open>w0\<close>
  obey the bound; and no text is twice in the batches and the buffer taken together,
  all of whose texts have a cache entry. \<open>dispatchedOnce\<close> is the second one between two
  invocations, when the buffer is empty.
\<close>

definition inv3 :: "world \<Rightarrow> locals \<Rightarrow> world \<Rightarrow> bool" where
  "inv3 w0 l w = (bufferOk l \<and> (\<exists>bs. requested w = requested w0 @ bs \<and> list_all batchOk bs))"

definition inv4 :: "locals \<Rightarrow> world \<Rightarrow> bool" where
  "inv4 l w = (distinct (concat (requested w) @ buffer l)
     \<and> set (concat (requested w)) \<union> set (buffer l) \<subseteq> dom (cache w))"

definition dispatchedOnce :: "world \<Rightarrow> bool" where
  "dispatchedOnce w =
     (distinct (concat (requested w)) \<and> set (concat (requested w)) \<subseteq> dom (cache w))"

text \<open>
  A third invariant, for units none of which is the empty string: the keys added to the
  cache since \<open>w0\<close> are the texts of the batches formed since and of the buffer.
\<close>

definition inv5 :: "world \<Rightarrow> locals \<Rightarrow> world \<Rightarrow> bool" where
  "inv5 w0 l w =
     (bufferSize l = sum_list (map length (buffer l)) \<and> [] \<notin> set (buffer l)
      \<and> (\<exists>bs. requested w = requested w0 @ bs
            \<and> dom (cache w) = dom (cache w0) \<union> set (concat bs) \<union> set (buffer l)))"

text \<open>
  The promise the splitter returns for a unit that is a cache hit or oversized, and the
  value that promise has: the value of the Defer in the cache, or the unit itself.
\<close>

definition prefixPromise :: "world \<Rightarrow> jstr \<Rightarrow> promise" where
  "prefixPromise w t = (case cache w t of Some d \<Rightarrow> DeferPromise d | None \<Rightarrow> Resolved [t])"

definition unitValue :: "world \<Rightarrow> jstr \<Rightarrow> jstr list" where
  "unitValue w t =
     (case cache w t of
        None \<Rightarrow> [t]
      | Some d \<Rightarrow>
          if d < length (defers w) then (case defers w ! d of Some v \<Rightarrow> v | None \<Rightarrow> [])
          else [])"

text \<open>A Defer fulfilled in the first state is fulfilled, with the same value, in the second.\<close>

definition keepsFulfilled :: "world \<Rightarrow> world \<Rightarrow> bool" where
  "keepsFulfilled w w' =
     (length (defers w) \<le> length (defers w')
      \<and> (\<forall>d < length (defers w). defers w ! d \<noteq> None \<longrightarrow> defers w' ! d = defers w ! d))"

section \<open>Sample inputs\<close>

text \<open>A backend that fails on every call.\<close>

definition down :: backend where
  "down = (\<lambda>k texts. Inl ''down'')"

text \<open>
  A unit of 5001 times the Cyrillic letter U+0416, an oversized unit, and two states in
  which the unit \<open>a\<close> has a cache entry, its Defer pending in one and fulfilled in the other.
\<close>

definition cyrillic :: jstr where
  "cyrillic = replicate 5001 0x416"

definition oversized :: jstr where
  "oversized = replicate 10000 0x61"

definition cached :: world where
  "cached =
     emptyWorld\<lparr>cache := [[0x61] \<mapsto> 0], defers := [None], requested := [[[0x61]]]\<rparr>"

definition fulfilled :: world where
  "fulfilled = emptyWorld\<lparr>cache := [[0x61] \<mapsto> 0], defers := [Some [[0x63]]]\<rparr>"

text \<open>Sample collaborators: every file is empty but \<^verbatim>\<open>in/b.md\<close>, which has no units.\<close>

definition sampleEnv :: "unit env" where
  "sampleEnv =
     \<lparr>extname = (\<lambda>p. if p = ''a.md'' \<or> p = ''b.md'' then ''.md'' else ''.txt''),
      resolvePath = (\<lambda>d p. d @ ''/'' @ p),
      dirname = (\<lambda>p. ''out''),
      loadFile = (\<lambda>p. Inr (if p = ''in/b.md'' then Some [0x61] else Some [])),
      mkdir = (\<lambda>p. None),
      dumpFile = (\<lambda>p c. None),
      extractUnits = (\<lambda>s. Inr ([], ())),
      compose = (\<lambda>k parts. Inr (concat parts))\<rparr>"

section \<open>Facts about the requester\<close>

lemma resolve_fst: "fst (resolve text index texts w) = text"
  by (simp add: resolve_def split: option.splits)

lemma resolve_snd:
  "index < length texts \<Longrightarrow>
   snd (resolve text index texts w) = cacheResolve (texts ! index) [text] w"
  by (simp add: resolve_def cacheResolve_def split: option.splits)

lemma mapResolve_Cons:
  "mapResolve (x # xs) i texts w =
     (x # fst (mapResolve xs (Suc i) texts (snd (resolve x i texts w))),
      snd (mapResolve xs (Suc i) texts (snd (resolve x i texts w))))"
proof -
  obtain w1 where r: "resolve x i texts w = (x, w1)"
    using resolve_fst [of x i texts w] by (cases "resolve x i texts w") simp
  then show ?thesis
    by (simp add: split_beta)
qed

lemma mapResolve_fst: "fst (mapResolve xs i texts w) = xs"
proof (induction xs arbitrary: i w)
  case Nil
  show ?case by simp
next
  case (Cons x xs)
  show ?case
    by (simp only: mapResolve_Cons fst_conv Cons.IH)
qed

lemma mapResolve_echo:
  "snd (mapResolve xs (length pre) (pre @ xs) w) = foldl (\<lambda>w t. cacheResolve t [t] w) w xs"
proof (induction xs arbitrary: pre w)
  case Nil
  show ?case by simp
next
  case (Cons x xs)
  have step: "snd (resolve x (length pre) (pre @ x # xs) w) = cacheResolve x [x] w"
    by (simp add: resolve_snd)
  have "snd (mapResolve xs (length (pre @ [x])) ((pre @ [x]) @ xs) (cacheResolve x [x] w))
        = foldl (\<lambda>w t. cacheResolve t [t] w) (cacheResolve x [x] w) xs"
    by (rule Cons.IH)
  then have "snd (mapResolve xs (Suc (length pre)) (pre @ x # xs) (cacheResolve x [x] w))
        = foldl (\<lambda>w t. cacheResolve t [t] w) (cacheResolve x [x] w) xs"
    by simp
  then show ?case
    by (simp only: mapResolve_Cons snd_conv step foldl_Cons)
qed

lemma deferResolve_calls: "calls (deferResolve d v w) = calls w"
  by (simp add: deferResolve_def split: option.splits)

lemma cacheResolve_calls: "calls (cacheResolve k v w) = calls w"
  by (simp add: cacheResolve_def deferResolve_calls split: option.splits)

lemma foldl_cacheResolve_calls:
  "calls (foldl (\<lambda>w t. cacheResolve t [t] w) w xs) = calls w"
  by (induction xs arbitrary: w) (simp_all add: cacheResolve_calls)

lemma deferResolve_frame:
  "cache (deferResolve d v w) = cache w" "requested (deferResolve d v w) = requested w"
  "stat_bytes (deferResolve d v w) = stat_bytes w" "stat_chunks (deferResolve d v w) = stat_chunks w"
  "warnings (deferResolve d v w) = warnings w" "calls (deferResolve d v w) = calls w"
  "length (defers (deferResolve d v w)) = length (defers w)"
  by (simp_all add: deferResolve_def split: option.splits)

lemma resolve_frame:
  "cache (snd (resolve x i texts w)) = cache w" "requested (snd (resolve x i texts w)) = requested w"
  "stat_bytes (snd (resolve x i texts w)) = stat_bytes w"
  "stat_chunks (snd (resolve x i texts w)) = stat_chunks w"
  "warnings (snd (resolve x i texts w)) = warnings w" "calls (snd (resolve x i texts w)) = calls w"
  "length (defers (snd (resolve x i texts w))) = length (defers w)"
  by (simp_all add: resolve_def deferResolve_frame split: option.splits)

lemma mapResolve_frame:
  "cache (snd (mapResolve xs i texts w)) = cache w
   \<and> requested (snd (mapResolve xs i texts w)) = requested w
   \<and> stat_bytes (snd (mapResolve xs i texts w)) = stat_bytes w
   \<and> stat_chunks (snd (mapResolve xs i texts w)) = stat_chunks w
   \<and> warnings (snd (mapResolve xs i texts w)) = warnings w
   \<and> calls (snd (mapResolve xs i texts w)) = calls w
   \<and> length (defers (snd (mapResolve xs i texts w))) = length (defers w)"
proof (induction xs arbitrary: i w)
  case Nil
  show ?case by simp
next
  case (Cons x xs)
  show ?case
    using Cons.IH [of "Suc i" "snd (resolve x i texts w)"]
    by (simp only: mapResolve_Cons snd_conv resolve_frame)
qed

lemma action_frame:
  "cache (snd (action dryRun backend texts w)) = cache w
   \<and> requested (snd (action dryRun backend texts w)) = requested w
   \<and> stat_bytes (snd (action dryRun backend texts w)) = stat_bytes w
   \<and> stat_chunks (snd (action dryRun backend texts w)) = stat_chunks w
   \<and> warnings (snd (action dryRun backend texts w)) = warnings w"
  using mapResolve_frame [of texts 0 texts w]
    mapResolve_frame [of _ 0 texts "w\<lparr>calls := calls w @ [texts]\<rparr>"]
  by (auto simp add: action_def split_beta Let_def split: sum.splits)

lemma action_dryRun_result: "fst (action True backend texts w) = Inr texts"
  by (simp add: action_def split_beta mapResolve_fst)

text \<open>
  C6: calling the requester with a batch adds the sum of the byte-lengths of the texts to
  the byte counter and exactly one to the chunk counter. This is done by the call itself,
  which runs nothing of the action it returns (no Defer is resolved, no backend call is
  made); and an action, whatever its outcome, leaves both counters as they are. So the
  counters count the batches formed, whether or not their actions run or succeed.
\<close>

theorem request_accounting:
  "stat_bytes (request texts w) = stat_bytes w + sum_list (map byteLength texts)
   \<and> stat_chunks (request texts w) = stat_chunks w + 1
   \<and> calls (request texts w) = calls w
   \<and> defers (request texts w) = defers w
   \<and> cache (request texts w) = cache w
   \<and> stat_bytes (snd (action dryRun backend texts w)) = stat_bytes w
   \<and> stat_chunks (snd (action dryRun backend texts w)) = stat_chunks w"
  using action_frame [of dryRun backend texts w]
  by (simp add: request_def bytes_def)

text \<open>
  C7: in dry-run mode the action of a batch returns the texts of the batch, unchanged and
  in order; its effect on the state is that of resolving, for each text in turn, the cache
  entry of that text (if there is one) with the one-element list holding the text; and no
  call of the backend is recorded.
\<close>

theorem action_dryRun:
  "action True backend texts w
     = (Inr texts, foldl (\<lambda>w t. cacheResolve t [t] w) w texts)
   \<and> calls (snd (action True backend texts w)) = calls w"
proof -
  have r: "fst (mapResolve texts 0 texts w) = texts"
    by (rule mapResolve_fst)
  have "snd (mapResolve texts (length ([]::jstr list)) ([] @ texts) w)
        = foldl (\<lambda>w t. cacheResolve t [t] w) w texts"
    by (rule mapResolve_echo)
  then have s: "snd (mapResolve texts 0 texts w) = foldl (\<lambda>w t. cacheResolve t [t] w) w texts"
    by simp
  have a: "action True backend texts w
            = (Inr (fst (mapResolve texts 0 texts w)), snd (mapResolve texts 0 texts w))"
    by (simp add: action_def split: prod.splits)
  show ?thesis
    by (simp add: a r s foldl_cacheResolve_calls)
qed

text \<open>
  C9: the requester's \<^verbatim>\<open>resolve\<close> returns its text in every case and has no failing
  branch. If the key \<^verbatim>\<open>texts[index]\<close> has a cache entry whose Defer is pending, the Defer
  is fulfilled with the one-element list of the text and nothing else changes. If the key
  has no entry, or its Defer is already fulfilled, or the index is out of range, the
  state is left exactly as it was.
\<close>

theorem resolve_total:
  "fst (resolve text index texts w) = text
   \<and> (index < length texts \<and> cache w (texts ! index) = Some d \<and> d < length (defers w)
        \<and> defers w ! d = None \<longrightarrow>
      snd (resolve text index texts w) = w\<lparr>defers := (defers w)[d := Some [text]]\<rparr>
      \<and> defers (snd (resolve text index texts w)) ! d = Some [text])
   \<and> (index < length texts \<and> cache w (texts ! index) = None \<longrightarrow>
      snd (resolve text index texts w) = w)
   \<and> (index < length texts \<and> cache w (texts ! index) = Some d \<and> defers w ! d = Some v \<longrightarrow>
      snd (resolve text index texts w) = w)
   \<and> (\<not> index < length texts \<longrightarrow> snd (resolve text index texts w) = w)"
  by (simp add: resolve_def deferResolve_def split: option.splits)

theorem resolve_total_witness:
  "cache cached ([[0x61]] ! 0) = Some 0 \<and> defers cached ! 0 = None
   \<and> defers (snd (resolve [0x62] 0 [[0x61]] cached)) ! 0 = Some [[0x62]]
   \<and> cache emptyWorld ([[0x61]] ! 0) = None
   \<and> snd (resolve [0x62] 0 [[0x61]] emptyWorld) = emptyWorld
   \<and> cache fulfilled ([[0x61]] ! 0) = Some 0 \<and> defers fulfilled ! 0 = Some [[0x63]]
   \<and> snd (resolve [0x62] 0 [[0x61]] fulfilled) = fulfilled
   \<and> snd (resolve [0x62] 1 [[0x61]] cached) = cached"
proof -
  have h: "cache cached ([[0x61]] ! 0) = Some 0 \<and> defers cached ! 0 = None
      \<and> (0::nat) < length (defers cached)
      \<and> cache emptyWorld ([[0x61]] ! 0) = None
      \<and> cache fulfilled ([[0x61]] ! 0) = Some 0 \<and> defers fulfilled ! 0 = Some [[0x63]]"
    by (simp add: cached_def fulfilled_def emptyWorld_def)
  show ?thesis
    using h
      resolve_total [of "[0x62]" 0 "[[0x61]]" cached 0 "[[0x63]]"]
      resolve_total [of "[0x62]" 0 "[[0x61]]" emptyWorld 0 "[[0x63]]"]
      resolve_total [of "[0x62]" 0 "[[0x61]]" fulfilled 0 "[[0x63]]"]
      resolve_total [of "[0x62]" 1 "[[0x61]]" cached 0 "[[0x63]]"]
    by simp
qed

section \<open>Facts about the retrier\<close>

lemma retryAttempt_last:
  "\<not> attempt < ntimes \<Longrightarrow>
   retryAttempt ntimes f task attempt s = ((fst (task s), [Invoke]), snd (task s))"
  by (subst retryAttempt.simps) (simp add: split_beta)

lemma retryAttempt_ok:
  "\<not> isl (fst (task s)) \<Longrightarrow>
   retryAttempt ntimes f task attempt s = ((fst (task s), [Invoke]), snd (task s))"
  by (subst retryAttempt.simps) (simp add: split_beta)

lemma retryAttempt_fail:
  "isl (fst (task s)) \<Longrightarrow> attempt < ntimes \<Longrightarrow>
   retryAttempt ntimes f task attempt s =
     ((fst (fst (retryAttempt ntimes f task (Suc attempt) (snd (task s)))),
       Invoke # Delay (f attempt)
         # snd (fst (retryAttempt ntimes f task (Suc attempt) (snd (task s))))),
      snd (retryAttempt ntimes f task (Suc attempt) (snd (task s))))"
  by (subst retryAttempt.simps) (simp add: split_beta)

lemma retry_three_failures:
  assumes f: "\<And>s'. isl (fst (task s'))"
  shows "retryAttempt 3 (\<lambda>count. 2 ^ count * 1000) task (Suc 0) s =
           ((fst (task (snd (task (snd (task s))))),
             [Invoke, Delay 2000, Invoke, Delay 4000, Invoke]),
            snd (task (snd (task (snd (task s))))))"
proof -
  let ?f = "\<lambda>count::nat. 2 ^ count * (1000::nat)"
  have a3: "retryAttempt 3 ?f task (Suc (Suc (Suc 0))) s'
              = ((fst (task s'), [Invoke]), snd (task s'))" for s'
    by (rule retryAttempt_last) simp
  have "retryAttempt 3 ?f task (Suc (Suc 0)) s' =
     ((fst (fst (retryAttempt 3 ?f task (Suc (Suc (Suc 0))) (snd (task s')))),
       Invoke # Delay (?f (Suc (Suc 0)))
         # snd (fst (retryAttempt 3 ?f task (Suc (Suc (Suc 0))) (snd (task s'))))),
      snd (retryAttempt 3 ?f task (Suc (Suc (Suc 0))) (snd (task s'))))" for s'
    by (rule retryAttempt_fail) (simp_all add: f)
  then have a2: "retryAttempt 3 ?f task (Suc (Suc 0)) s' =
     ((fst (task (snd (task s'))), [Invoke, Delay 4000, Invoke]), snd (task (snd (task s'))))"
    for s'
    by (simp add: a3)
  have "retryAttempt 3 ?f task (Suc 0) s =
     ((fst (fst (retryAttempt 3 ?f task (Suc (Suc 0)) (snd (task s)))),
       Invoke # Delay (?f (Suc 0))
         # snd (fst (retryAttempt 3 ?f task (Suc (Suc 0)) (snd (task s))))),
      snd (retryAttempt 3 ?f task (Suc (Suc 0)) (snd (task s))))"
    by (rule retryAttempt_fail) (simp_all add: f)
  then show ?thesis
    by (simp add: a2)
qed

lemma action_down:
  "action False down texts = (\<lambda>w. (Inl (RequestError ''down''), w\<lparr>calls := calls w @ [texts]\<rparr>))"
  by (rule ext) (simp add: action_def down_def)

text \<open>
  C2, as the code has it: an action that fails on every attempt is invoked exactly three
  times, the number given as \<^verbatim>\<open>times\<close>: once at the start and on two retries. The
  delay before retry 1 is 2000 ms and before retry 2 is 4000 ms; there is no third retry.
  The promise then rejects with the error of the last, third attempt.
\<close>

theorem backoff_always_failing:
  assumes "\<forall>s. isl (fst (task s))"
  shows "backoff task s =
           ((fst (task (snd (task (snd (task s))))),
             [Invoke, Delay 2000, Invoke, Delay 4000, Invoke]),
            snd (task (snd (task (snd (task s))))))"
proof -
  have "isl (fst (task s'))" for s'
    using assms by simp
  then show ?thesis
    by (simp add: backoff_def retry_def RETRY_LIMIT_def retry_three_failures)
qed

theorem backoff_always_failing_witness:
  "(\<forall>s. isl (fst (action False down [[0x61]] s)))
   \<and> backoff (action False down [[0x61]]) emptyWorld =
       ((Inl (RequestError ''down''), [Invoke, Delay 2000, Invoke, Delay 4000, Invoke]),
        emptyWorld\<lparr>calls := [[[0x61]], [[0x61]], [[0x61]]]\<rparr>)"
proof -
  have h: "\<forall>s. isl (fst (action False down [[0x61]] s))"
    by (simp add: action_down)
  show ?thesis
    using h backoff_always_failing [OF h, of emptyWorld]
    by (simp add: action_down emptyWorld_def)
qed

text \<open>
  The claim as stated fails: with a backend that is down, the batch \<open>[a]\<close> is sent three
  times, not four, and no delay of 8000 ms is ever set.
\<close>

theorem backoff_four_attempts_counterexample:
  "snd (fst (backoff (action False down [[0x61]]) emptyWorld))
     = [Invoke, Delay 2000, Invoke, Delay 4000, Invoke]
   \<and> length (calls (snd (backoff (action False down [[0x61]]) emptyWorld))) = 3
   \<and> length (calls (snd (backoff (action False down [[0x61]]) emptyWorld))) \<noteq> 4"
proof -
  have "backoff (action False down [[0x61]]) emptyWorld =
       ((Inl (RequestError ''down''), [Invoke, Delay 2000, Invoke, Delay 4000, Invoke]),
        emptyWorld\<lparr>calls := [[[0x61]], [[0x61]], [[0x61]]]\<rparr>)"
    by (simp add: backoff_def retry_def RETRY_LIMIT_def retry_three_failures action_down
        emptyWorld_def)
  then show ?thesis
    by simp
qed

section \<open>The steps of the splitter loop\<close>

lemma step_hit:
  "cache w t = Some d \<Longrightarrow>
   step p t l w = (l\<lparr>promises := promises l @ [DeferPromise d]\<rparr>, w)"
  by (simp add: step_def)

lemma step_big:
  "cache w t = None \<Longrightarrow> BYTES_LIMIT \<le> length t \<Longrightarrow>
   step p t l w = (l\<lparr>promises := promises l @ [Resolved [t]]\<rparr>, w\<lparr>warnings := warnings w @ [p]\<rparr>)"
  by (simp add: step_def)

lemma step_fit:
  "cache w t = None \<Longrightarrow> length t < BYTES_LIMIT \<Longrightarrow> bufferSize l + length t \<le> BYTES_LIMIT \<Longrightarrow>
   step p t l w =
     (l\<lparr>buffer := buffer l @ [t], bufferSize := bufferSize l + length t\<rparr>,
      w\<lparr>defers := defers w @ [None], cache := (cache w)(t \<mapsto> length (defers w))\<rparr>)"
  by (simp add: step_def newDefer_def)

lemma step_flush:
  "cache w t = None \<Longrightarrow> length t < BYTES_LIMIT \<Longrightarrow> BYTES_LIMIT < bufferSize l + length t \<Longrightarrow>
   step p t l w =
     (l\<lparr>promises := promises l @ [Backoff (buffer l)], buffer := [t], bufferSize := length t\<rparr>,
      (request (buffer l) w)\<lparr>defers := defers w @ [None], cache := (cache w)(t \<mapsto> length (defers w))\<rparr>)"
  by (simp add: step_def newDefer_def release_def request_def)

lemma step_cases:
  fixes w :: world and l :: locals
  obtains (hit) d where "cache w t = Some d"
  | (big) "cache w t = None" "BYTES_LIMIT \<le> length t"
  | (fit) "cache w t = None" "length t < BYTES_LIMIT" "bufferSize l + length t \<le> BYTES_LIMIT"
  | (flush) "cache w t = None" "length t < BYTES_LIMIT" "BYTES_LIMIT < bufferSize l + length t"
proof (cases "cache w t")
  case None
  show ?thesis
  proof (cases "BYTES_LIMIT \<le> length t")
    case True
    with None big show ?thesis by simp
  next
    case False
    with None fit flush show ?thesis
      by (cases "bufferSize l + length t \<le> BYTES_LIMIT") simp_all
  qed
next
  case (Some d)
  with hit show ?thesis by simp
qed

lemma loop_Cons:
  "loop p (t # ts) l w = loop p ts (fst (step p t l w)) (snd (step p t l w))"
  by (simp add: split_beta)

lemma loop_append:
  "loop p (ts @ us) l w = loop p us (fst (loop p ts l w)) (snd (loop p ts l w))"
  by (induction ts arbitrary: l w) (simp_all add: split_beta)

lemma splitter_unfold:
  "splitter p ts w =
     (let l = fst (loop p ts \<lparr>promises = [], buffer = [], bufferSize = 0\<rparr> w);
          w1 = snd (loop p ts \<lparr>promises = [], buffer = [], bufferSize = 0\<rparr> w)
      in if bufferSize l \<noteq> 0 then (promises l @ [Backoff (buffer l)], request (buffer l) w1)
         else (promises l, w1))"
  by (simp add: splitter_def split_beta Let_def)

lemma step_cache:
  "cache (snd (step p u l w)) =
     (if cache w u = None \<and> length u < BYTES_LIMIT then (cache w)(u \<mapsto> length (defers w))
      else cache w)"
  by (cases rule: step_cases [where w = w and t = u and l = l])
     (simp_all add: step_hit step_big step_fit step_flush request_def)

lemma splitter_cache: "cache (snd (splitter p ts w)) = cache (snd (loop p ts \<lparr>promises = [], buffer = [], bufferSize = 0\<rparr> w))"
  by (simp add: splitter_unfold Let_def request_def)

lemma sum_length_zero: "sum_list (map length (xs::jstr list)) = 0 \<Longrightarrow> [] \<notin> set xs \<Longrightarrow> xs = []"
  by (cases xs) auto

section \<open>The bound on the batches\<close>

lemma step_inv3:
  assumes "inv3 w0 l w"
  shows "inv3 w0 (fst (step p t l w)) (snd (step p t l w))"
proof (cases rule: step_cases [where w = w and t = t and l = l])
  case (hit d)
  with assms show ?thesis by (simp add: step_hit inv3_def bufferOk_def)
next
  case big
  with assms show ?thesis by (simp add: step_big inv3_def bufferOk_def)
next
  case fit
  with assms show ?thesis by (simp add: step_fit inv3_def bufferOk_def batchOk_def)
next
  case flush
  with assms show ?thesis by (auto simp add: step_flush inv3_def bufferOk_def batchOk_def request_def)
qed

lemma loop_inv3:
  "inv3 w0 l w \<Longrightarrow> inv3 w0 (fst (loop p ts l w)) (snd (loop p ts l w))"
proof (induction ts arbitrary: l w)
  case Nil
  then show ?case by simp
next
  case (Cons t ts)
  have "inv3 w0 (fst (step p t l w)) (snd (step p t l w))"
    using Cons.prems by (rule step_inv3)
  then have "inv3 w0 (fst (loop p ts (fst (step p t l w)) (snd (step p t l w))))
                     (snd (loop p ts (fst (step p t l w)) (snd (step p t l w))))"
    by (rule Cons.IH)
  then show ?case by (simp add: split_beta)
qed

lemma inv3_start: "inv3 w \<lparr>promises = [], buffer = [], bufferSize = 0\<rparr> w"
  by (simp add: inv3_def bufferOk_def batchOk_def)

lemma splitter_requested:
  "\<exists>bs. requested (snd (splitter p ts w)) = requested w @ bs \<and> list_all batchOk bs"
proof -
  let ?l0 = "\<lparr>promises = [], buffer = [], bufferSize = 0\<rparr>"
  have "inv3 w (fst (loop p ts ?l0 w)) (snd (loop p ts ?l0 w))"
    using inv3_start by (rule loop_inv3)
  then show ?thesis
    by (auto simp: splitter_unfold Let_def inv3_def bufferOk_def request_def)
qed

lemma formed_append: "requested w' = requested w @ bs \<Longrightarrow> formed w w' = bs"
  by (simp add: formed_def)

lemma loop_cache_big:
  "BYTES_LIMIT \<le> length t \<Longrightarrow> cache (snd (loop p ts l w)) t = cache w t"
proof (induction ts arbitrary: l w)
  case Nil
  show ?case by simp
next
  case (Cons u ts)
  have "cache (snd (step p u l w)) t = cache w t"
    using Cons.prems by (auto simp: step_cache)
  with Cons.IH [OF Cons.prems] show ?case
    by (simp only: loop_Cons)
qed

lemma step_promises_mono: "set (promises l) \<subseteq> set (promises (fst (step p u l w)))"
  by (cases rule: step_cases [where w = w and t = u and l = l])
     (auto simp add: step_hit step_big step_fit step_flush)

lemma step_warnings_mono: "set (warnings w) \<subseteq> set (warnings (snd (step p u l w)))"
  by (cases rule: step_cases [where w = w and t = u and l = l])
     (auto simp add: step_hit step_big step_fit step_flush request_def)

lemma loop_mono:
  "set (promises l) \<subseteq> set (promises (fst (loop p ts l w)))
   \<and> set (warnings w) \<subseteq> set (warnings (snd (loop p ts l w)))"
proof (induction ts arbitrary: l w)
  case Nil
  show ?case by simp
next
  case (Cons u ts)
  show ?case
    using Cons.IH [of "fst (step p u l w)" "snd (step p u l w)"]
      step_promises_mono [of l p u w] step_warnings_mono [of w p u l]
    by (simp only: loop_Cons) blast
qed

lemma loop_passthrough:
  "t \<in> set ts \<Longrightarrow> cache w t = None \<Longrightarrow> BYTES_LIMIT \<le> length t \<Longrightarrow>
   Resolved [t] \<in> set (promises (fst (loop p ts l w))) \<and> p \<in> set (warnings (snd (loop p ts l w)))"
proof (induction ts arbitrary: l w)
  case Nil
  then show ?case by simp
next
  case (Cons u ts)
  let ?l1 = "fst (step p u l w)" and ?w1 = "snd (step p u l w)"
  show ?case
  proof (cases "u = t")
    case True
    have "Resolved [t] \<in> set (promises ?l1) \<and> p \<in> set (warnings ?w1)"
      using Cons.prems True by (simp add: step_big)
    then show ?thesis
      using loop_mono [of ?l1 p ts ?w1] by (simp only: loop_Cons) blast
  next
    case False
    then have "t \<in> set ts" using Cons.prems by simp
    moreover have "cache ?w1 t = None"
      using Cons.prems False by (simp add: step_cache)
    ultimately show ?thesis
      using Cons.IH [of ?w1 ?l1] Cons.prems by (simp only: loop_Cons)
  qed
qed

lemma byteLength_replicate:
  "\<not> isHigh c \<Longrightarrow> byteLength (replicate n c) = n * unitBytes c"
proof (induction n)
  case 0
  show ?case by simp
next
  case (Suc n)
  then show ?case
    by (cases n) simp_all
qed

lemma cyrillic_length: "length cyrillic = 5001"
  by (simp add: cyrillic_def)

lemma cyrillic_bytes: "byteLength cyrillic = 10002"
  by (simp add: cyrillic_def byteLength_replicate isHigh_def unitBytes_def)

text \<open>
  C3, as the code has it: the splitter measures a text by \<^verbatim>\<open>text.length\<close>, its number of
  UTF-16 code units, not by its bytes. Every batch it forms has a total length of at most
  10000 code units; a unit of 10000 code units or more is in no batch and gets no cache
  entry, and if it is not a cache hit it is passed through as an already resolved promise
  of itself, with a warning logged for the path.
\<close>

theorem splitter_batches_bounded:
  "requested (snd (splitter path texts w)) = requested w @ formed w (snd (splitter path texts w))
   \<and> (\<forall>b \<in> set (formed w (snd (splitter path texts w))). sum_list (map length b) \<le> BYTES_LIMIT)
   \<and> (BYTES_LIMIT \<le> length t \<longrightarrow>
        t \<notin> set (concat (formed w (snd (splitter path texts w))))
        \<and> cache (snd (splitter path texts w)) t = cache w t)
   \<and> (t \<in> set texts \<and> cache w t = None \<and> BYTES_LIMIT \<le> length t \<longrightarrow>
        Resolved [t] \<in> set (fst (splitter path texts w))
        \<and> path \<in> set (warnings (snd (splitter path texts w))))"
proof -
  let ?l0 = "\<lparr>promises = [], buffer = [], bufferSize = 0\<rparr>"
  let ?w' = "snd (splitter path texts w)"
  obtain bs where bs: "requested ?w' = requested w @ bs" "list_all batchOk bs"
    using splitter_requested [of path texts w] by blast
  have f: "formed w ?w' = bs"
    using bs(1) by (rule formed_append)
  have 1: "requested ?w' = requested w @ formed w ?w'"
    using bs(1) f by simp
  have 2: "\<forall>b \<in> set (formed w ?w'). sum_list (map length b) \<le> BYTES_LIMIT"
    using bs(2) f by (simp add: list_all_iff batchOk_def)
  have 3: "t \<notin> set (concat (formed w ?w'))" if "BYTES_LIMIT \<le> length t"
    using bs(2) f that by (fastforce simp: list_all_iff batchOk_def)
  have 4: "cache ?w' t = cache w t" if "BYTES_LIMIT \<le> length t"
    using that by (simp add: splitter_cache loop_cache_big)
  have 5: "Resolved [t] \<in> set (fst (splitter path texts w)) \<and> path \<in> set (warnings ?w')"
    if "t \<in> set texts" "cache w t = None" "BYTES_LIMIT \<le> length t"
    using loop_passthrough [OF that, of path ?l0]
    by (simp add: splitter_unfold Let_def request_def)
  show ?thesis
    using 1 2 3 4 5 by blast
qed

lemma oversized_length: "length oversized = 10000"
  by (simp add: oversized_def)

lemma splitter_oversized:
  "splitter ''a.md'' [oversized, [0x61]] emptyWorld =
     ([Resolved [oversized], Backoff [[0x61]]],
      emptyWorld\<lparr>cache := [[0x61] \<mapsto> 0], defers := [None],
        stat_bytes := 1, stat_chunks := 1, requested := [[[0x61]]], warnings := [''a.md'']\<rparr>)"
  by (simp add: splitter_unfold step_def newDefer_def request_def bytes_def emptyWorld_def
      oversized_length BYTES_LIMIT_def Let_def unitBytes_def)

theorem splitter_batches_bounded_witness:
  "BYTES_LIMIT \<le> length oversized \<and> oversized \<in> set [oversized, [0x61]]
   \<and> cache emptyWorld oversized = None
   \<and> formed emptyWorld (snd (splitter ''a.md'' [oversized, [0x61]] emptyWorld)) = [[[0x61]]]
   \<and> sum_list (map length [[0x61::16 word]]) \<le> BYTES_LIMIT
   \<and> oversized \<notin> set (concat (formed emptyWorld (snd (splitter ''a.md'' [oversized, [0x61]] emptyWorld))))
   \<and> cache (snd (splitter ''a.md'' [oversized, [0x61]] emptyWorld)) oversized = None
   \<and> Resolved [oversized] \<in> set (fst (splitter ''a.md'' [oversized, [0x61]] emptyWorld))
   \<and> ''a.md'' \<in> set (warnings (snd (splitter ''a.md'' [oversized, [0x61]] emptyWorld)))"
proof -
  have f: "formed emptyWorld (snd (splitter ''a.md'' [oversized, [0x61]] emptyWorld)) = [[[0x61]]]"
    by (simp add: splitter_oversized formed_def) (simp add: emptyWorld_def)
  have h: "BYTES_LIMIT \<le> length oversized \<and> oversized \<in> set [oversized, [0x61]]
      \<and> cache emptyWorld oversized = None"
    by (simp add: oversized_length BYTES_LIMIT_def emptyWorld_def)
  show ?thesis
    using h f splitter_batches_bounded [of "''a.md''" "[oversized, [0x61]]" emptyWorld oversized]
    by (simp add: BYTES_LIMIT_def)
qed

lemma splitter_cyrillic:
  "splitter ''a.md'' [cyrillic] emptyWorld =
     ([Backoff [cyrillic]],
      emptyWorld\<lparr>cache := [cyrillic \<mapsto> 0], defers := [None],
        stat_bytes := 10002, stat_chunks := 1, requested := [[cyrillic]]\<rparr>)"
  by (simp add: splitter_unfold step_def newDefer_def request_def bytes_def emptyWorld_def
      cyrillic_length cyrillic_bytes BYTES_LIMIT_def Let_def)

text \<open>
  C3 as stated, in bytes, fails: a unit of 5001 Cyrillic letters has 5001 code units, so
  it is batched, and 10002 bytes.
\<close>

theorem splitter_bytes_counterexample:
  "formed emptyWorld (snd (splitter ''a.md'' [cyrillic] emptyWorld)) = [[cyrillic]]
   \<and> sum_list (map byteLength [cyrillic]) = 10002
   \<and> \<not> sum_list (map byteLength [cyrillic]) \<le> BYTES_LIMIT"
proof -
  have "requested (snd (splitter ''a.md'' [cyrillic] emptyWorld)) = [[cyrillic]]"
    by (simp add: splitter_cyrillic)
  then show ?thesis
    by (simp add: formed_def emptyWorld_def cyrillic_bytes BYTES_LIMIT_def)
qed

section \<open>Each text is dispatched at most once\<close>

lemma step_inv4:
  assumes "inv4 l w"
  shows "inv4 (fst (step p t l w)) (snd (step p t l w))"
proof (cases rule: step_cases [where w = w and t = t and l = l])
  case (hit d)
  with assms show ?thesis by (simp add: step_hit inv4_def)
next
  case big
  with assms show ?thesis by (simp add: step_big inv4_def)
next
  case fit
  with assms show ?thesis by (auto simp add: step_fit inv4_def)
next
  case flush
  with assms show ?thesis by (auto simp add: step_flush inv4_def request_def)
qed

lemma loop_inv4:
  "inv4 l w \<Longrightarrow> inv4 (fst (loop p ts l w)) (snd (loop p ts l w))"
proof (induction ts arbitrary: l w)
  case Nil
  then show ?case by simp
next
  case (Cons t ts)
  have "inv4 (fst (step p t l w)) (snd (step p t l w))"
    using Cons.prems by (rule step_inv4)
  then show ?case
    by (simp only: loop_Cons) (rule Cons.IH)
qed

lemma splitter_dispatchedOnce:
  assumes "dispatchedOnce w"
  shows "dispatchedOnce (snd (splitter p ts w))"
proof -
  let ?l0 = "\<lparr>promises = [], buffer = [], bufferSize = 0\<rparr>"
  have "inv4 ?l0 w"
    using assms by (simp add: inv4_def dispatchedOnce_def)
  then have "inv4 (fst (loop p ts ?l0 w)) (snd (loop p ts ?l0 w))"
    by (rule loop_inv4)
  then show ?thesis
    by (auto simp: splitter_unfold Let_def inv4_def dispatchedOnce_def request_def)
qed

lemma run_dispatchedOnce:
  "dispatchedOnce w \<Longrightarrow> dispatchedOnce (run dryRun backend ms w)"
proof (induction ms arbitrary: w)
  case Nil
  then show ?case by simp
next
  case (Cons m ms)
  show ?case
  proof (cases m)
    case (Split p ts)
    then show ?thesis
      using Cons.IH [OF splitter_dispatchedOnce [OF Cons.prems, of p ts]] by simp
  next
    case (Act ts)
    have "dispatchedOnce (snd (action dryRun backend ts w))"
      using Cons.prems action_frame [of dryRun backend ts w] by (simp add: dispatchedOnce_def)
    then show ?thesis
      using Cons.IH Act by simp
  qed
qed

lemma step_cache_keep: "cache w k = Some d \<Longrightarrow> cache (snd (step p u l w)) k = Some d"
  by (auto simp: step_cache)

lemma loop_cache_keep: "cache w k = Some d \<Longrightarrow> cache (snd (loop p ts l w)) k = Some d"
proof (induction ts arbitrary: l w)
  case Nil
  then show ?case by simp
next
  case (Cons u ts)
  show ?case
    using Cons.IH [OF step_cache_keep [OF Cons.prems, of p u l]]
    by (simp only: loop_Cons)
qed

lemma run_cache_keep: "cache w k = Some d \<Longrightarrow> cache (run dryRun backend ms w) k = Some d"
proof (induction ms arbitrary: w)
  case Nil
  then show ?case by simp
next
  case (Cons m ms)
  show ?case
  proof (cases m)
    case (Split p ts)
    have "cache (snd (splitter p ts w)) k = Some d"
      using Cons.prems by (simp add: splitter_cache loop_cache_keep)
    then show ?thesis
      using Cons.IH Split by simp
  next
    case (Act ts)
    have "cache (snd (action dryRun backend ts w)) k = Some d"
      using Cons.prems action_frame [of dryRun backend ts w] by simp
    then show ?thesis
      using Cons.IH Act by simp
  qed
qed

text \<open>
  C4: a language run starts from an empty cache and is any sequence of splitter
  invocations and batch actions on the shared state. The batches passed to the requester,
  taken together, hold no text twice; a cache entry, once set, stays as it is; and a unit
  whose text has a cache entry gets the promise of that entry and leaves buffer and state
  untouched.
\<close>

theorem run_dispatch_once:
  "distinct (concat (requested (run dryRun backend moves emptyWorld)))
   \<and> (cache w k = Some d \<longrightarrow> cache (run dryRun backend moves w) k = Some d)
   \<and> (cache w k = Some d \<longrightarrow>
        step path k l w = (l\<lparr>promises := promises l @ [DeferPromise d]\<rparr>, w))"
proof -
  have "dispatchedOnce emptyWorld"
    by (simp add: dispatchedOnce_def emptyWorld_def)
  then have "dispatchedOnce (run dryRun backend moves emptyWorld)"
    by (rule run_dispatchedOnce)
  then show ?thesis
    by (simp add: dispatchedOnce_def run_cache_keep step_hit)
qed

theorem run_dispatch_once_witness:
  "cache cached [0x61] = Some 0
   \<and> distinct (concat (requested (run True down [Split ''b.md'' [[0x61], [0x62]], Act [[0x62]]] emptyWorld)))
   \<and> cache (run True down [Split ''b.md'' [[0x61], [0x62]], Act [[0x62]]] cached) [0x61] = Some 0
   \<and> step ''b.md'' [0x61] \<lparr>promises = [], buffer = [[0x62]], bufferSize = 1\<rparr> cached
       = (\<lparr>promises = [DeferPromise 0], buffer = [[0x62]], bufferSize = 1\<rparr>, cached)"
proof -
  have h: "cache cached [0x61] = Some 0"
    by (simp add: cached_def)
  show ?thesis
    using h run_dispatch_once [of True down "[Split ''b.md'' [[0x61], [0x62]], Act [[0x62]]]"
        cached "[0x61]" 0 "''b.md''" "\<lparr>promises = [], buffer = [[0x62]], bufferSize = 1\<rparr>"]
    by simp
qed

section \<open>The flush after the loop\<close>

lemma step_inv5:
  assumes "inv5 w0 l w" and "t \<noteq> []"
  shows "inv5 w0 (fst (step p t l w)) (snd (step p t l w))"
proof (cases rule: step_cases [where w = w and t = t and l = l])
  case (hit d)
  with assms show ?thesis by (simp add: step_hit inv5_def)
next
  case big
  with assms show ?thesis by (simp add: step_big inv5_def)
next
  case fit
  with assms show ?thesis by (auto simp add: step_fit inv5_def)
next
  case flush
  obtain bs where bs: "requested w = requested w0 @ bs"
    "dom (cache w) = dom (cache w0) \<union> set (concat bs) \<union> set (buffer l)"
    using assms(1) by (auto simp: inv5_def)
  have "requested (snd (step p t l w)) = requested w0 @ (bs @ [buffer l])
     \<and> dom (cache (snd (step p t l w)))
         = dom (cache w0) \<union> set (concat (bs @ [buffer l])) \<union> set (buffer (fst (step p t l w)))"
    using bs by (auto simp add: step_flush [OF flush] request_def)
  then show ?thesis
    using assms(2) unfolding inv5_def by (simp add: step_flush [OF flush]) blast
qed

lemma loop_inv5:
  "inv5 w0 l w \<Longrightarrow> [] \<notin> set ts \<Longrightarrow> inv5 w0 (fst (loop p ts l w)) (snd (loop p ts l w))"
proof (induction ts arbitrary: l w)
  case Nil
  then show ?case by simp
next
  case (Cons t ts)
  have "t \<noteq> []"
    using Cons.prems(2) by auto
  with Cons.prems(1) have "inv5 w0 (fst (step p t l w)) (snd (step p t l w))"
    by (rule step_inv5)
  moreover have "[] \<notin> set ts"
    using Cons.prems(2) by simp
  ultimately show ?case
    by (simp only: loop_Cons) (rule Cons.IH)
qed

text \<open>
  When no unit is the empty string, the texts that get a cache entry during an invocation
  are exactly the texts of the batches the invocation passes to the requester.
\<close>

lemma splitter_flushes_nonempty:
  assumes "[] \<notin> set texts"
  shows "dom (cache (snd (splitter path texts w)))
           = dom (cache w) \<union> set (concat (formed w (snd (splitter path texts w))))"
proof -
  let ?init = "\<lparr>promises = [], buffer = [], bufferSize = 0\<rparr>"
  let ?lf = "fst (loop path texts ?init w)" and ?wf = "snd (loop path texts ?init w)"
  have "inv5 w ?init w"
    by (simp add: inv5_def)
  then have "inv5 w ?lf ?wf"
    using assms by (rule loop_inv5)
  then obtain bs where bs: "requested ?wf = requested w @ bs"
    "dom (cache ?wf) = dom (cache w) \<union> set (concat bs) \<union> set (buffer ?lf)"
    "bufferSize ?lf = sum_list (map length (buffer ?lf))" "[] \<notin> set (buffer ?lf)"
    by (auto simp: inv5_def)
  show ?thesis
  proof (cases "bufferSize ?lf = 0")
    case True
    then have "buffer ?lf = []"
      using bs(3,4) by (simp add: sum_length_zero)
    then show ?thesis
      using True bs(1,2) by (simp add: splitter_unfold Let_def formed_def)
  next
    case False
    then show ?thesis
      using bs(1,2) by (simp add: splitter_unfold Let_def formed_def request_def Un_assoc)
  qed
qed

text \<open>
  C5 fails for a unit that is the empty string: the test after the loop is on
  \<^verbatim>\<open>bufferSize\<close>, which is still 0, so the buffer holding the unit is not flushed. The
  unit has got a cache entry with a pending Defer, no batch is formed, and no promise is
  returned for it.
\<close>

theorem splitter_empty_text:
  "splitter ''a.md'' [[]] emptyWorld = ([], emptyWorld\<lparr>cache := [[] \<mapsto> 0], defers := [None]\<rparr>)"
  by (simp add: splitter_unfold step_def newDefer_def emptyWorld_def BYTES_LIMIT_def Let_def)

section \<open>The translator's early returns\<close>

text \<open>
  C10: for a path whose extension is none of \<^verbatim>\<open>.yaml\<close>, \<^verbatim>\<open>.json\<close>, \<^verbatim>\<open>.md\<close> the translator
  returns at once: it succeeds, has called no collaborator (no load, no directory
  creation, no write) and leaves the state as it was.
\<close>

theorem translator_skips_other_extensions:
  "extname env path \<notin> {''.yaml'', ''.json'', ''.md''} \<Longrightarrow>
   translator env input output dryRun backend path w = ((Done (), []), w)"
  by (simp add: translator_def)

theorem translator_skips_other_extensions_witness:
  "extname sampleEnv ''c.txt'' \<notin> {''.yaml'', ''.json'', ''.md''}
   \<and> translator sampleEnv ''in'' ''out'' True down ''c.txt'' emptyWorld = ((Done (), []), emptyWorld)"
proof -
  have h: "extname sampleEnv ''c.txt'' \<notin> {''.yaml'', ''.json'', ''.md''}"
    by (simp add: sampleEnv_def)
  show ?thesis
    using h translator_skips_other_extensions [OF h, of "''in''" "''out''" True down emptyWorld]
    by simp
qed

text \<open>
  C8: for a path with one of the three extensions, once the content is loaded and the
  output directory made: if the content is absent or empty, the translator writes that
  content to the output path and stops, and \<^verbatim>\<open>extract\<close> has not been called; if the
  content has no units, it writes the original content to the output path and stops, and
  the splitter has not been called (the state is as it was). In both cases the outcome
  is that of the write.
\<close>

theorem translator_writes_through:
  assumes "extname env path \<in> {''.yaml'', ''.json'', ''.md''}"
    and "loadFile env (resolvePath env input path) = Inr content"
    and "mkdir env (dirname env (resolvePath env output path)) = None"
  shows "(falsy content \<longrightarrow>
            translator env input output dryRun backend path w =
              (((case dumpFile env (resolvePath env output path) content of
                   Some e \<Rightarrow> Failed e | None \<Rightarrow> Done ()),
                [LoadFile (resolvePath env input path),
                 MakeDir (dirname env (resolvePath env output path)),
                 DumpFile (resolvePath env output path) content]), w))
       \<and> (content = Some s \<and> s \<noteq> [] \<and> extractUnits env s = Inr ([], skeleton) \<longrightarrow>
            translator env input output dryRun backend path w =
              (((case dumpFile env (resolvePath env output path) content of
                   Some e \<Rightarrow> Failed e | None \<Rightarrow> Done ()),
                [LoadFile (resolvePath env input path),
                 MakeDir (dirname env (resolvePath env output path)),
                 ExtractUnits s,
                 DumpFile (resolvePath env output path) content]), w))"
  using assms
  by (auto simp add: translator_def falsy_def dump_def Let_def split: option.splits)

theorem translator_writes_through_witness:
  "extname sampleEnv ''a.md'' \<in> {''.yaml'', ''.json'', ''.md''}
   \<and> loadFile sampleEnv (resolvePath sampleEnv ''in'' ''a.md'') = Inr (Some [])
   \<and> mkdir sampleEnv (dirname sampleEnv (resolvePath sampleEnv ''out'' ''a.md'')) = None
   \<and> falsy (Some [])
   \<and> translator sampleEnv ''in'' ''out'' True down ''a.md'' emptyWorld =
       ((Done (), [LoadFile ''in/a.md'', MakeDir ''out'', DumpFile ''out/a.md'' (Some [])]),
        emptyWorld)
   \<and> loadFile sampleEnv (resolvePath sampleEnv ''in'' ''b.md'') = Inr (Some [0x61])
   \<and> extractUnits sampleEnv [0x61] = Inr ([], ())
   \<and> translator sampleEnv ''in'' ''out'' True down ''b.md'' emptyWorld =
       ((Done (), [LoadFile ''in/b.md'', MakeDir ''out'', ExtractUnits [0x61],
          DumpFile ''out/b.md'' (Some [0x61])]),
        emptyWorld)"
proof -
  have a: "extname sampleEnv ''a.md'' \<in> {''.yaml'', ''.json'', ''.md''}"
    "loadFile sampleEnv (resolvePath sampleEnv ''in'' ''a.md'') = Inr (Some [])"
    "mkdir sampleEnv (dirname sampleEnv (resolvePath sampleEnv ''out'' ''a.md'')) = None"
    by (simp_all add: sampleEnv_def)
  have b: "extname sampleEnv ''b.md'' \<in> {''.yaml'', ''.json'', ''.md''}"
    "loadFile sampleEnv (resolvePath sampleEnv ''in'' ''b.md'') = Inr (Some [0x61])"
    "mkdir sampleEnv (dirname sampleEnv (resolvePath sampleEnv ''out'' ''b.md'')) = None"
    by (simp_all add: sampleEnv_def)
  have e: "extractUnits sampleEnv [0x61] = Inr ([], ())" "falsy (Some [])"
    by (simp_all add: sampleEnv_def falsy_def)
  show ?thesis
    using a b e
      translator_writes_through [OF a, of True down emptyWorld "[]" "()"]
      translator_writes_through [OF b, of True down emptyWorld "[0x61]" "()"]
    by (simp add: sampleEnv_def)
qed

section \<open>The order of the futures\<close>

lemma loop_prefix:
  "\<forall>t \<in> set pre. cache w t \<noteq> None \<or> BYTES_LIMIT \<le> length t \<Longrightarrow>
   loop p pre l w =
     (l\<lparr>promises := promises l @ map (prefixPromise w) pre\<rparr>,
      w\<lparr>warnings := warnings w @ map (\<lambda>t. p) (filter (\<lambda>t. cache w t = None) pre)\<rparr>)"
proof (induction pre arbitrary: l w)
  case Nil
  show ?case by simp
next
  case (Cons t pre)
  show ?case
  proof (cases "cache w t")
    case None
    then have big: "BYTES_LIMIT \<le> length t"
      using Cons.prems by simp
    have s: "step p t l w =
        (l\<lparr>promises := promises l @ [Resolved [t]]\<rparr>, w\<lparr>warnings := warnings w @ [p]\<rparr>)"
      using None big by (rule step_big)
    have "\<forall>u \<in> set pre. cache (w\<lparr>warnings := warnings w @ [p]\<rparr>) u \<noteq> None \<or> BYTES_LIMIT \<le> length u"
      using Cons.prems by simp
    from Cons.IH [OF this] show ?thesis
      using None by (simp add: s prefixPromise_def)
  next
    case (Some d)
    have s: "step p t l w = (l\<lparr>promises := promises l @ [DeferPromise d]\<rparr>, w)"
      using Some by (rule step_hit)
    have "\<forall>u \<in> set pre. cache w u \<noteq> None \<or> BYTES_LIMIT \<le> length u"
      using Cons.prems by simp
    from Cons.IH [OF this] show ?thesis
      using Some by (simp add: s prefixPromise_def)
  qed
qed

lemma loop_fresh:
  assumes "\<forall>t \<in> set ts. cache w t = None \<and> length t < BYTES_LIMIT \<and> t \<noteq> []"
    and "distinct ts"
    and "bufferSize l = sum_list (map length (buffer l))"
    and "[] \<notin> set (buffer l)"
  shows "\<exists>bs. promises (fst (loop p ts l w)) = promises l @ map Backoff bs
            \<and> requested (snd (loop p ts l w)) = requested w @ bs
            \<and> concat bs @ buffer (fst (loop p ts l w)) = buffer l @ ts
            \<and> bufferSize (fst (loop p ts l w)) = sum_list (map length (buffer (fst (loop p ts l w))))
            \<and> [] \<notin> set (buffer (fst (loop p ts l w)))"
  using assms
proof (induction ts arbitrary: l w)
  case Nil
  then show ?case by simp
next
  case (Cons t ts)
  let ?l1 = "fst (step p t l w)" and ?w1 = "snd (step p t l w)"
  have t: "cache w t = None" "length t < BYTES_LIMIT" "t \<noteq> []"
    using Cons.prems(1) by simp_all
  have rest: "\<forall>u \<in> set ts. cache ?w1 u = None \<and> length u < BYTES_LIMIT \<and> u \<noteq> []"
    using Cons.prems(1,2) by (auto simp: step_cache)
  have d: "distinct ts"
    using Cons.prems(2) by simp
  show ?case
  proof (cases "bufferSize l + length t \<le> BYTES_LIMIT")
    case True
    have s: "step p t l w =
       (l\<lparr>buffer := buffer l @ [t], bufferSize := bufferSize l + length t\<rparr>,
        w\<lparr>defers := defers w @ [None], cache := (cache w)(t \<mapsto> length (defers w))\<rparr>)"
      using t(1,2) True by (rule step_fit)
    have "bufferSize ?l1 = sum_list (map length (buffer ?l1))" "[] \<notin> set (buffer ?l1)"
      using Cons.prems(3,4) t(3) by (simp_all add: s)
    from Cons.IH [OF rest d this] obtain bs where
      "promises (fst (loop p ts ?l1 ?w1)) = promises ?l1 @ map Backoff bs
       \<and> requested (snd (loop p ts ?l1 ?w1)) = requested ?w1 @ bs
       \<and> concat bs @ buffer (fst (loop p ts ?l1 ?w1)) = buffer ?l1 @ ts
       \<and> bufferSize (fst (loop p ts ?l1 ?w1)) = sum_list (map length (buffer (fst (loop p ts ?l1 ?w1))))
       \<and> [] \<notin> set (buffer (fst (loop p ts ?l1 ?w1)))"
      by blast
    then show ?thesis
      by (simp only: loop_Cons) (simp add: s)
  next
    case False
    then have over: "BYTES_LIMIT < bufferSize l + length t"
      by simp
    have s: "step p t l w =
       (l\<lparr>promises := promises l @ [Backoff (buffer l)], buffer := [t], bufferSize := length t\<rparr>,
        (request (buffer l) w)\<lparr>defers := defers w @ [None], cache := (cache w)(t \<mapsto> length (defers w))\<rparr>)"
      using t(1,2) over by (rule step_flush)
    have "bufferSize ?l1 = sum_list (map length (buffer ?l1))" "[] \<notin> set (buffer ?l1)"
      using t(3) by (simp_all add: s)
    from Cons.IH [OF rest d this] obtain bs where bs:
      "promises (fst (loop p ts ?l1 ?w1)) = promises ?l1 @ map Backoff bs
       \<and> requested (snd (loop p ts ?l1 ?w1)) = requested ?w1 @ bs
       \<and> concat bs @ buffer (fst (loop p ts ?l1 ?w1)) = buffer ?l1 @ ts
       \<and> bufferSize (fst (loop p ts ?l1 ?w1)) = sum_list (map length (buffer (fst (loop p ts ?l1 ?w1))))
       \<and> [] \<notin> set (buffer (fst (loop p ts ?l1 ?w1)))"
      by blast
    have "promises (fst (loop p ts ?l1 ?w1)) = promises l @ map Backoff (buffer l # bs)
       \<and> requested (snd (loop p ts ?l1 ?w1)) = requested w @ (buffer l # bs)
       \<and> concat (buffer l # bs) @ buffer (fst (loop p ts ?l1 ?w1)) = buffer l @ t # ts"
      using bs by (simp add: s request_def)
    then show ?thesis
      using bs by (simp only: loop_Cons) blast
  qed
qed

lemma splitter_structure:
  assumes "\<forall>t \<in> set pre. cache w t \<noteq> None \<or> BYTES_LIMIT \<le> length t"
    and "\<forall>t \<in> set fresh. cache w t = None \<and> length t < BYTES_LIMIT \<and> t \<noteq> []"
    and "distinct fresh"
  shows "\<exists>bs. fst (splitter p (pre @ fresh) w) = map (prefixPromise w) pre @ map Backoff bs
            \<and> requested (snd (splitter p (pre @ fresh) w)) = requested w @ bs
            \<and> concat bs = fresh"
proof -
  let ?init = "\<lparr>promises = [], buffer = [], bufferSize = 0\<rparr>"
  let ?lp = "?init\<lparr>promises := promises ?init @ map (prefixPromise w) pre\<rparr>"
  let ?wp = "w\<lparr>warnings := warnings w @ map (\<lambda>t. p) (filter (\<lambda>t. cache w t = None) pre)\<rparr>"
  let ?lf = "fst (loop p fresh ?lp ?wp)" and ?wf = "snd (loop p fresh ?lp ?wp)"
  have pre: "loop p pre ?init w = (?lp, ?wp)"
    using assms(1) by (rule loop_prefix)
  have whole: "loop p (pre @ fresh) ?init w = loop p fresh ?lp ?wp"
    by (simp only: loop_append pre fst_conv snd_conv)
  have "\<forall>t \<in> set fresh. cache ?wp t = None \<and> length t < BYTES_LIMIT \<and> t \<noteq> []"
    using assms(2) by simp
  moreover have "bufferSize ?lp = sum_list (map length (buffer ?lp))" "[] \<notin> set (buffer ?lp)"
    by simp_all
  ultimately obtain bs where bs:
    "promises ?lf = promises ?lp @ map Backoff bs"
    "requested ?wf = requested ?wp @ bs"
    "concat bs @ buffer ?lf = buffer ?lp @ fresh"
    "bufferSize ?lf = sum_list (map length (buffer ?lf))"
    "[] \<notin> set (buffer ?lf)"
    using loop_fresh [OF _ assms(3), of ?wp ?lp p] by blast
  show ?thesis
  proof (cases "bufferSize ?lf = 0")
    case True
    then have "buffer ?lf = []"
      using bs(4,5) by (simp add: sum_length_zero)
    then have "fst (splitter p (pre @ fresh) w) = map (prefixPromise w) pre @ map Backoff bs
        \<and> requested (snd (splitter p (pre @ fresh) w)) = requested w @ bs
        \<and> concat bs = fresh"
      using True bs(1,2,3) by (simp add: splitter_unfold whole Let_def)
    then show ?thesis by blast
  next
    case False
    then have "fst (splitter p (pre @ fresh) w)
          = map (prefixPromise w) pre @ map Backoff (bs @ [buffer ?lf])
        \<and> requested (snd (splitter p (pre @ fresh) w)) = requested w @ (bs @ [buffer ?lf])
        \<and> concat (bs @ [buffer ?lf]) = fresh"
      using bs(1,2,3) by (simp add: splitter_unfold whole Let_def request_def)
    then show ?thesis by blast
  qed
qed

lemma step_defers: "\<exists>xs. defers (snd (step p t l w)) = defers w @ xs"
  by (cases rule: step_cases [where w = w and t = t and l = l])
     (simp_all add: step_hit step_big step_fit step_flush request_def)

lemma loop_defers: "\<exists>xs. defers (snd (loop p ts l w)) = defers w @ xs"
proof (induction ts arbitrary: l w)
  case Nil
  show ?case by simp
next
  case (Cons t ts)
  obtain xs where xs: "defers (snd (step p t l w)) = defers w @ xs"
    using step_defers by blast
  obtain ys where "defers (snd (loop p ts (fst (step p t l w)) (snd (step p t l w))))
      = defers (snd (step p t l w)) @ ys"
    using Cons.IH by blast
  then show ?case
    by (simp only: loop_Cons) (simp add: xs)
qed

lemma splitter_defers: "\<exists>xs. defers (snd (splitter p ts w)) = defers w @ xs"
  using loop_defers [of p ts "\<lparr>promises = [], buffer = [], bufferSize = 0\<rparr>" w]
  by (simp add: splitter_unfold Let_def request_def)

lemma keepsFulfilled_refl: "keepsFulfilled w w"
  by (simp add: keepsFulfilled_def)

lemma keepsFulfilled_trans:
  "keepsFulfilled w w1 \<Longrightarrow> keepsFulfilled w1 w2 \<Longrightarrow> keepsFulfilled w w2"
  by (auto simp: keepsFulfilled_def)

lemma keepsFulfilled_append: "defers w' = defers w @ xs \<Longrightarrow> keepsFulfilled w w'"
  by (simp add: keepsFulfilled_def nth_append)

lemma splitter_keeps: "keepsFulfilled w (snd (splitter p ts w))"
  using splitter_defers [of p ts w] keepsFulfilled_append by blast

lemma deferResolve_keeps: "keepsFulfilled w (deferResolve d v w)"
  by (auto simp: keepsFulfilled_def deferResolve_def nth_list_update split: option.splits)

lemma resolve_keeps: "keepsFulfilled w (snd (resolve x i texts w))"
  by (simp add: resolve_def deferResolve_keeps keepsFulfilled_refl split: option.splits)

lemma mapResolve_keeps: "keepsFulfilled w (snd (mapResolve xs i texts w))"
proof (induction xs arbitrary: i w)
  case Nil
  show ?case by (simp add: keepsFulfilled_refl)
next
  case (Cons x xs)
  show ?case
    using keepsFulfilled_trans [OF resolve_keeps [of w x i texts]
        Cons.IH [where i = "Suc i" and w = "snd (resolve x i texts w)"]]
    by (simp only: mapResolve_Cons snd_conv)
qed

lemma keepsFulfilled_calls:
  "keepsFulfilled (w\<lparr>calls := c\<rparr>) w' = keepsFulfilled w w'"
  "keepsFulfilled w (w\<lparr>calls := c\<rparr>)"
  by (simp_all add: keepsFulfilled_def)

lemma action_keeps: "keepsFulfilled w (snd (action dryRun backend texts w))"
  using mapResolve_keeps [of w texts 0 texts]
    mapResolve_keeps [of "w\<lparr>calls := calls w @ [texts]\<rparr>" _ 0 texts]
  by (auto simp add: action_def split_beta Let_def keepsFulfilled_calls keepsFulfilled_refl
      split: sum.splits)

lemma backoff_ok:
  "\<not> isl (fst (act s)) \<Longrightarrow> backoff act s = ((fst (act s), [Invoke]), snd (act s))"
  by (simp add: backoff_def retry_def retryAttempt_ok)

lemma runBatches_prefix:
  "runBatches dryRun backend (map (prefixPromise w0) pre @ qs) w =
     (replicate (length pre) Pending @ fst (runBatches dryRun backend qs w),
      snd (runBatches dryRun backend qs w))"
  by (induction pre) (simp_all add: prefixPromise_def split_beta split: option.splits)

lemma runBatches_batches:
  assumes "\<forall>ts w. fst (action dryRun backend ts w) = Inr (ans ts)"
  shows "fst (runBatches dryRun backend (map Backoff bs) w) = map (\<lambda>b. Fulfilled (ans b)) bs
         \<and> keepsFulfilled w (snd (runBatches dryRun backend (map Backoff bs) w))"
proof (induction bs arbitrary: w)
  case Nil
  show ?case by (simp add: keepsFulfilled_refl)
next
  case (Cons b bs)
  let ?w1 = "snd (action dryRun backend b w)"
  have ok: "fst (action dryRun backend b w) = Inr (ans b)"
    using assms by simp
  then have "\<not> isl (fst (action dryRun backend b w))"
    by simp
  then have bo: "backoff (action dryRun backend b) w = ((Inr (ans b), [Invoke]), ?w1)"
    using ok by (simp add: backoff_ok)
  have k: "keepsFulfilled w ?w1"
    by (rule action_keeps)
  have ih: "fst (runBatches dryRun backend (map Backoff bs) ?w1) = map (\<lambda>b. Fulfilled (ans b)) bs
         \<and> keepsFulfilled ?w1 (snd (runBatches dryRun backend (map Backoff bs) ?w1))"
    by (rule Cons.IH)
  show ?case
    using ih keepsFulfilled_trans [OF k] by (simp add: bo split_beta)
qed

lemma zip_prefix:
  "map f (zip (map g xs) (replicate (length xs) c)) = map (\<lambda>x. f (g x, c)) xs"
  by (induction xs) simp_all

lemma zip_batches:
  "map f (zip (map g xs) (map h xs)) = map (\<lambda>x. f (g x, h x)) xs"
  by (induction xs) simp_all

lemma await_prefix:
  assumes "keepsFulfilled w w1"
    and "\<forall>d. cache w t = Some d \<longrightarrow> d < length (defers w) \<and> defers w ! d \<noteq> None"
  shows "await w1 (prefixPromise w t) Pending = Fulfilled (unitValue w t)"
proof (cases "cache w t")
  case None
  then show ?thesis by (simp add: prefixPromise_def unitValue_def)
next
  case (Some d)
  then have d: "d < length (defers w)" "defers w ! d \<noteq> None"
    using assms(2) by simp_all
  then have "d < length (defers w1)" "defers w1 ! d = defers w ! d"
    using assms(1) by (auto simp: keepsFulfilled_def)
  then show ?thesis
    using Some d by (auto simp add: prefixPromise_def unitValue_def)
qed

lemma flatAll_fulfilled: "flatAll (map Fulfilled vs) = Done (concat vs)"
proof -
  have "firstRejected (map Fulfilled vs) = None"
    by (induction vs) simp_all
  moreover have "allValues (map Fulfilled vs) = Some vs"
    by (induction vs) simp_all
  ultimately show ?thesis
    by (simp add: flatAll_def)
qed

lemma settle_structure:
  assumes "\<forall>ts w. fst (action dryRun backend ts w) = Inr (ans ts)"
    and "keepsFulfilled w w'"
    and "\<forall>t \<in> set pre. \<forall>d. cache w t = Some d \<longrightarrow> d < length (defers w) \<and> defers w ! d \<noteq> None"
  shows "fst (settle dryRun backend (map (prefixPromise w) pre @ map Backoff bs) w')
           = map Fulfilled (map (unitValue w) pre @ map ans bs)"
proof -
  let ?rb = "runBatches dryRun backend (map Backoff bs) w'"
  have rb: "fst ?rb = map (\<lambda>b. Fulfilled (ans b)) bs" "keepsFulfilled w' (snd ?rb)"
    using runBatches_batches [OF assms(1), of bs w'] by simp_all
  have k: "keepsFulfilled w (snd ?rb)"
    using assms(2) rb(2) by (rule keepsFulfilled_trans)
  have p: "map (\<lambda>(p, s). await (snd ?rb) p s) (zip (map (prefixPromise w) pre)
             (replicate (length pre) Pending)) = map (\<lambda>t. Fulfilled (unitValue w t)) pre"
    using assms(3) by (simp add: zip_prefix await_prefix [OF k])
  have b: "map (\<lambda>(p, s). await (snd ?rb) p s) (zip (map Backoff bs)
             (map (\<lambda>b. Fulfilled (ans b)) bs)) = map (\<lambda>b. Fulfilled (ans b)) bs"
    by (simp add: zip_batches)
  show ?thesis
    by (simp add: settle_def runBatches_prefix rb(1) p b)
qed

text \<open>
  Where the order is kept. Take an input in which every cache hit and oversized unit
  comes before every fresh unit, the fresh units being absent from the cache, below the
  limit, non-empty and pairwise distinct, and in which the Defers of the cache hits are
  fulfilled. Then the futures are, in input order, those of the hits and oversized units,
  followed by one for each batch, and the batches put end to end are the fresh units in
  input order. When every batch action succeeds at its first attempt, with an answer that
  depends on the batch alone, the values of the futures concatenated in list order are
  the cached value of each hit and each oversized unit itself, in input order, followed
  by the answers to the batches in order.
\<close>

lemma splitter_prefix_then_fresh:
  assumes "\<forall>t \<in> set pre. cache w t \<noteq> None \<or> BYTES_LIMIT \<le> length t"
    and "\<forall>t \<in> set pre. \<forall>d. cache w t = Some d \<longrightarrow> d < length (defers w) \<and> defers w ! d \<noteq> None"
    and "\<forall>t \<in> set fresh. cache w t = None \<and> length t < BYTES_LIMIT \<and> t \<noteq> []"
    and "distinct fresh"
    and "\<forall>ts w. fst (action dryRun backend ts w) = Inr (ans ts)"
  shows "fst (splitter path (pre @ fresh) w)
           = map (prefixPromise w) pre
             @ map Backoff (formed w (snd (splitter path (pre @ fresh) w)))
       \<and> concat (formed w (snd (splitter path (pre @ fresh) w))) = fresh
       \<and> flatAll (fst (settle dryRun backend (fst (splitter path (pre @ fresh) w))
                        (snd (splitter path (pre @ fresh) w))))
           = Done (concat (map (unitValue w) pre)
                   @ concat (map ans (formed w (snd (splitter path (pre @ fresh) w)))))
       \<and> (dryRun \<longrightarrow>
            flatAll (fst (settle dryRun backend (fst (splitter path (pre @ fresh) w))
                        (snd (splitter path (pre @ fresh) w))))
              = Done (concat (map (unitValue w) pre) @ fresh))"
proof -
  let ?ps = "fst (splitter path (pre @ fresh) w)" and ?w' = "snd (splitter path (pre @ fresh) w)"
  obtain bs where bs: "?ps = map (prefixPromise w) pre @ map Backoff bs"
    "requested ?w' = requested w @ bs" "concat bs = fresh"
    using splitter_structure [OF assms(1,3,4), of path] by blast
  have f: "formed w ?w' = bs"
    using bs(2) by (rule formed_append)
  have k: "keepsFulfilled w ?w'"
    by (rule splitter_keeps)
  have "fst (settle dryRun backend (map (prefixPromise w) pre @ map Backoff bs) ?w')
          = map Fulfilled (map (unitValue w) pre @ map ans bs)"
    using assms(5) k assms(2) by (rule settle_structure)
  then have v: "flatAll (fst (settle dryRun backend ?ps ?w'))
      = Done (concat (map (unitValue w) pre) @ concat (map ans bs))"
    by (simp only: bs(1) flatAll_fulfilled concat_append)
  have dr: "concat (map ans bs) = fresh" if dryRun
  proof -
    have "ans ts = ts" for ts
      using assms(5) that action_dryRun_result [of backend ts w] by simp
    then have "map ans bs = bs"
      by (simp add: map_idI)
    then show ?thesis
      using bs(3) by simp
  qed
  have c1: "?ps = map (prefixPromise w) pre @ map Backoff (formed w ?w')"
    using bs(1) f by simp
  have c2: "concat (formed w ?w') = fresh"
    using bs(3) f by simp
  have c3: "flatAll (fst (settle dryRun backend ?ps ?w'))
      = Done (concat (map (unitValue w) pre) @ concat (map ans (formed w ?w')))"
    using v f by simp
  have c4: "dryRun \<longrightarrow> flatAll (fst (settle dryRun backend ?ps ?w'))
      = Done (concat (map (unitValue w) pre) @ fresh)"
    using v dr by auto
  show ?thesis
    using c1 c2 c3 c4 by blast
qed

lemma oversized_neq: "oversized \<noteq> [c]" "[c] \<noteq> oversized"
proof -
  have "length oversized \<noteq> length [c]"
    by (simp add: oversized_length)
  then have "oversized = [c] \<Longrightarrow> False"
    by (simp only:)
  then show "oversized \<noteq> [c]"
    by blast
  then show "[c] \<noteq> oversized"
    by (rule not_sym)
qed

lemma splitter_aba:
  "splitter ''a.md'' [[0x61], [0x62], [0x61]] emptyWorld =
     ([DeferPromise 0, Backoff [[0x61], [0x62]]],
      emptyWorld\<lparr>cache := [[0x61] \<mapsto> 0, [0x62] \<mapsto> 1], defers := [None, None],
        stat_bytes := 2, stat_chunks := 1, requested := [[[0x61], [0x62]]]\<rparr>)"
  by (simp add: splitter_unfold step_def newDefer_def request_def bytes_def emptyWorld_def
      BYTES_LIMIT_def Let_def unitBytes_def)

lemma settle_aba:
  "fst (settle True down [DeferPromise 0, Backoff [[0x61], [0x62]]]
     (emptyWorld\<lparr>cache := [[0x61] \<mapsto> 0, [0x62] \<mapsto> 1], defers := [None, None],
        stat_bytes := 2, stat_chunks := 1, requested := [[[0x61], [0x62]]]\<rparr>))
   = [Fulfilled [[0x61]], Fulfilled [[0x61], [0x62]]]"
  by (simp add: settle_def backoff_ok action_def resolve_def deferResolve_def emptyWorld_def
      split_beta)

lemma splitter_a_oversized:
  "splitter ''a.md'' [[0x61], oversized] emptyWorld =
     ([Resolved [oversized], Backoff [[0x61]]],
      emptyWorld\<lparr>cache := [[0x61] \<mapsto> 0], defers := [None],
        stat_bytes := 1, stat_chunks := 1, requested := [[[0x61]]], warnings := [''a.md'']\<rparr>)"
  by (simp add: splitter_unfold step_def newDefer_def request_def bytes_def emptyWorld_def
      oversized_length oversized_neq BYTES_LIMIT_def Let_def unitBytes_def)

lemma settle_a_oversized:
  "fst (settle True down [Resolved [oversized], Backoff [[0x61]]]
     (emptyWorld\<lparr>cache := [[0x61] \<mapsto> 0], defers := [None],
        stat_bytes := 1, stat_chunks := 1, requested := [[[0x61]]], warnings := [''a.md'']\<rparr>))
   = [Fulfilled [oversized], Fulfilled [[0x61]]]"
  by (simp add: settle_def backoff_ok action_def resolve_def deferResolve_def emptyWorld_def
      split_beta)

text \<open>
  C1 fails on the code. The translator composes the parts by the position of their units,
  so the futures have to answer for the units in input order. But a cache hit or an
  oversized unit is pushed at once, while the fresh units before it wait in the buffer
  until the next flush. In dry-run mode, where every unit is its own translation: for the
  units \<open>a, b, a\<close> the splitter returns two futures, that of the repeated \<open>a\<close> first and
  that of the batch \<open>[a, b]\<close> second, and their values concatenated are \<open>a, a, b\<close>; for
  the units \<open>a\<close> and an oversized one the values are the oversized unit first, then \<open>a\<close>.
\<close>

theorem splitter_misorders_units:
  "fst (splitter ''a.md'' [[0x61], [0x62], [0x61]] emptyWorld)
     = [DeferPromise 0, Backoff [[0x61], [0x62]]]
   \<and> flatAll (fst (settle True down
         (fst (splitter ''a.md'' [[0x61], [0x62], [0x61]] emptyWorld))
         (snd (splitter ''a.md'' [[0x61], [0x62], [0x61]] emptyWorld))))
       = Done [[0x61], [0x61], [0x62]]
   \<and> [[0x61], [0x61], [0x62]] \<noteq> [[0x61], [0x62], [0x61::16 word]]
   \<and> fst (splitter ''a.md'' [[0x61], oversized] emptyWorld)
       = [Resolved [oversized], Backoff [[0x61]]]
   \<and> flatAll (fst (settle True down
         (fst (splitter ''a.md'' [[0x61], oversized] emptyWorld))
         (snd (splitter ''a.md'' [[0x61], oversized] emptyWorld))))
       = Done [oversized, [0x61]]
   \<and> [oversized, [0x61]] \<noteq> [[0x61], oversized]"
proof -
  have 1: "fst (settle True down
         (fst (splitter ''a.md'' [[0x61], [0x62], [0x61]] emptyWorld))
         (snd (splitter ''a.md'' [[0x61], [0x62], [0x61]] emptyWorld)))
        = [Fulfilled [[0x61]], Fulfilled [[0x61], [0x62]]]"
    by (simp only: splitter_aba fst_conv snd_conv settle_aba)
  have 2: "fst (settle True down
         (fst (splitter ''a.md'' [[0x61], oversized] emptyWorld))
         (snd (splitter ''a.md'' [[0x61], oversized] emptyWorld)))
        = [Fulfilled [oversized], Fulfilled [[0x61]]]"
    by (simp only: splitter_a_oversized fst_conv snd_conv settle_a_oversized)
  have 3: "fst (splitter ''a.md'' [[0x61], [0x62], [0x61]] emptyWorld)
        = [DeferPromise 0, Backoff [[0x61], [0x62]]]"
    by (simp only: splitter_aba fst_conv)
  have 4: "fst (splitter ''a.md'' [[0x61], oversized] emptyWorld)
        = [Resolved [oversized], Backoff [[0x61]]]"
    by (simp only: splitter_a_oversized fst_conv)
  have 5: "flatAll [Fulfilled [[0x61]], Fulfilled [[0x61], [0x62::16 word]]]
        = Done [[0x61], [0x61], [0x62]]"
    "flatAll [Fulfilled [oversized], Fulfilled [[0x61]]] = Done [oversized, [0x61]]"
    by (simp_all add: flatAll_def)
  have 6: "flatAll (fst (settle True down
         (fst (splitter ''a.md'' [[0x61], [0x62], [0x61]] emptyWorld))
         (snd (splitter ''a.md'' [[0x61], [0x62], [0x61]] emptyWorld))))
       = Done [[0x61], [0x61], [0x62]]"
    by (simp only: 1 5)
  have 7: "flatAll (fst (settle True down
         (fst (splitter ''a.md'' [[0x61], oversized] emptyWorld))
         (snd (splitter ''a.md'' [[0x61], oversized] emptyWorld))))
       = Done [oversized, [0x61]]"
    by (simp only: 2 5)
  have 8: "[[0x61], [0x61], [0x62]] \<noteq> [[0x61], [0x62], [0x61::16 word]]"
    "[oversized, [0x61]] \<noteq> [[0x61], oversized]"
    by (simp_all add: oversized_neq)
  show ?thesis
    using 3 4 6 7 8 by blast
qed

end
